theory Spec2Isabelle
  imports Main
begin

section \<open>The line buffer of text\_editor.c\<close>

text \<open>
  The editor keeps its text in a singly linked list of nodes, one node per screen row.
  Each node holds a fixed array \<^verbatim>\<open>char text[128]\<close>, read as a NUL-terminated C
  string, and a \<^verbatim>\<open>next\<close> pointer. The three buffer functions are embedded here:
  \<^verbatim>\<open>buffer_select_node\<close>, \<^verbatim>\<open>buffer_remove_character\<close> and
  \<^verbatim>\<open>buffer_insert_character\<close>.

  C leaves a read or write outside an array, a dereference of an invalid pointer and
  a signed overflow undefined. The embedding makes each of them a value of type
  \<open>fault\<close>: a function returns \<open>Inl f\<close> at the first such step and \<open>Inr\<close> of its
  result when it runs to its end without one. The source itself has no error
  returns: all three functions are \<^verbatim>\<open>void\<close>.
\<close>

subsection \<open>Data\<close>

datatype fault = OutOfBounds | InvalidPointer | SignedOverflow

text \<open>The size of the array \<^verbatim>\<open>text\<close> in \<^verbatim>\<open>struct node\<close>.\<close>

definition MAX_LINE_LEN :: nat where
  "MAX_LINE_LEN = 128"

text \<open>The string terminator, and the padding character of the gap fill.\<close>

definition NUL :: char where
  "NUL = CHR 0x00"

definition SPACE :: char where
  "SPACE = CHR '' ''"

text \<open>
  A pointer to a node is \<open>None\<close> for \<^verbatim>\<open>NULL\<close> or \<open>Some a\<close> for the address \<open>a\<close>.
  The fields of \<^verbatim>\<open>node_t\<close> are \<^verbatim>\<open>text\<close> and \<^verbatim>\<open>next\<close>; both words are
  reserved in Isabelle, hence the prefix.
\<close>

type_synonym ptr = "nat option"

record node_t =
  node_text :: "char list"
  node_next :: ptr

text \<open>
  The heap of nodes is a list: the node at address \<open>a\<close> is \<open>mem ! a\<close>, and an address
  is valid when it is below \<open>length mem\<close>. The record \<open>Buffer\<close> carries the heap
  together with the two pointers of the C struct.
\<close>

record Buffer =
  mem :: "node_t list"
  head :: ptr
  current :: ptr

text \<open>\<^verbatim>\<open>Buffer b = { 0 }\<close> in \<^verbatim>\<open>main\<close>: both pointers are NULL, nothing is allocated.\<close>

definition empty_buffer :: Buffer where
  "empty_buffer = \<lparr>mem = [], head = None, current = None\<rparr>"

text \<open>
  \<^verbatim>\<open>calloc(1, sizeof(node_t))\<close> returns a fresh node whose bytes are all zero: the
  text is 128 terminators and \<^verbatim>\<open>next\<close> is NULL. The fresh address is the first
  unused one. The allocation is taken to succeed.
\<close>

definition zero_node :: node_t where
  "zero_node = \<lparr>node_text = replicate MAX_LINE_LEN NUL, node_next = None\<rparr>"

definition calloc_node :: "node_t list \<Rightarrow> node_t list \<times> nat" where
  "calloc_node m = (m @ [zero_node], length m)"

subsection \<open>buffer\_select\_node\<close>

text \<open>
  The loop \<^verbatim>\<open>for (int i = 0; i < y; i++)\<close>: at each round the node under
  \<^verbatim>\<open>current\<close> is read, a missing successor is allocated and linked, and
  \<^verbatim>\<open>current\<close> moves to the successor.
\<close>

function select_loop :: "node_t list \<Rightarrow> ptr \<Rightarrow> int \<Rightarrow> int \<Rightarrow> fault + (node_t list \<times> ptr)" where
  "select_loop m cur i y =
     (if i < y then
        (case cur of
           None \<Rightarrow> Inl InvalidPointer
         | Some c \<Rightarrow>
             (if c < length m then
                (case node_next (m ! c) of
                   None \<Rightarrow>
                     (let (m1, a) = calloc_node m;
                          m2 = m1[c := (m1 ! c)\<lparr>node_next := Some a\<rparr>]
                      in select_loop m2 (Some a) (i + 1) y)
                 | Some a \<Rightarrow> select_loop m (Some a) (i + 1) y)
              else Inl InvalidPointer))
      else Inr (m, cur))"
  by pat_completeness auto
termination
  by (relation "measure (\<lambda>(m, cur, i, y). nat (y - i))") auto

text \<open>
  The function first allocates the head when the list is empty, then walks from the
  head. The walk replaces \<^verbatim>\<open>b->current\<close>; the heap keeps every node it allocated.
\<close>

definition buffer_select_node :: "Buffer \<Rightarrow> int \<Rightarrow> fault + Buffer" where
  "buffer_select_node b y =
     (let b1 = (if head b = None then
                  (let (m1, a) = calloc_node (mem b)
                   in b\<lparr>mem := m1, head := Some a, current := Some a\<rparr>)
                else b)
      in case select_loop (mem b1) (head b1) 0 y of
           Inl e \<Rightarrow> Inl e
         | Inr (m', c) \<Rightarrow> Inr (b1\<lparr>mem := m', current := c\<rparr>))"

subsection \<open>strlen\<close>

text \<open>
  \<^verbatim>\<open>strlen\<close> counts the characters before the first terminator. When the array
  holds no terminator the scan leaves the array.
\<close>

fun strlen :: "char list \<Rightarrow> fault + nat" where
  "strlen [] = Inl OutOfBounds"
| "strlen (c # cs) =
     (if c = NUL then Inr 0
      else (case strlen cs of Inl e \<Rightarrow> Inl e | Inr n \<Rightarrow> Inr (Suc n)))"

subsection \<open>buffer\_remove\_character\<close>

text \<open>
  The loop \<^verbatim>\<open>for (int i = x - 1; i < strlen(text); i++) text[i] = text[i + 1]\<close>.
  The length is computed again at every test. The comparison is between an
  \<^verbatim>\<open>int\<close> and a \<^verbatim>\<open>size_t\<close>, so \<^verbatim>\<open>i\<close> is converted to unsigned: a negative
  \<^verbatim>\<open>i\<close> becomes a value above every length and the test fails.
\<close>

function shift_left :: "char list \<Rightarrow> int \<Rightarrow> fault + char list" where
  "shift_left t i =
     (case strlen t of
        Inl e \<Rightarrow> Inl e
      | Inr n \<Rightarrow>
          (if 0 \<le> i \<and> i < int n then
             (if i + 1 < int (length t) then
                shift_left (t[nat i := t ! nat (i + 1)]) (i + 1)
              else Inl OutOfBounds)
           else Inr t))"
  by pat_completeness auto
termination
  by (relation "measure (\<lambda>(t, i). nat (int (length t) - i))") auto

text \<open>
  The text part of \<^verbatim>\<open>buffer_remove_character\<close>: \<^verbatim>\<open>x - 1\<close>, the loop, and the
  final \<^verbatim>\<open>text[strlen(text)] = 0\<close>. An \<^verbatim>\<open>int\<close> has 32 bits.
\<close>

definition remove_text :: "char list \<Rightarrow> int \<Rightarrow> fault + char list" where
  "remove_text t x =
     (if x - 1 < - (2 ^ 31) then Inl SignedOverflow
      else (case shift_left t (x - 1) of
              Inl e \<Rightarrow> Inl e
            | Inr t1 \<Rightarrow>
                (case strlen t1 of
                   Inl e \<Rightarrow> Inl e
                 | Inr n \<Rightarrow> Inr (t1[n := NUL]))))"

text \<open>Running a function on \<^verbatim>\<open>b->current->text\<close> and storing the array back.\<close>

definition on_current_text :: "(char list \<Rightarrow> fault + char list) \<Rightarrow> Buffer \<Rightarrow> fault + Buffer" where
  "on_current_text f b =
     (case current b of
        None \<Rightarrow> Inl InvalidPointer
      | Some a \<Rightarrow>
          (if a < length (mem b) then
             (case f (node_text (mem b ! a)) of
                Inl e \<Rightarrow> Inl e
              | Inr t' \<Rightarrow> Inr (b\<lparr>mem := (mem b)[a := (mem b ! a)\<lparr>node_text := t'\<rparr>]\<rparr>))
           else Inl InvalidPointer))"

definition buffer_remove_character :: "Buffer \<Rightarrow> int \<Rightarrow> int \<Rightarrow> fault + Buffer" where
  "buffer_remove_character b x y =
     (case buffer_select_node b y of
        Inl e \<Rightarrow> Inl e
      | Inr b1 \<Rightarrow> on_current_text (\<lambda>t. remove_text t x) b1)"

subsection \<open>buffer\_insert\_character\<close>

text \<open>
  The first loop, \<^verbatim>\<open>for (int i = 0; i < x; i++) if (text[i] == 0) text[i] = ' '\<close>.
\<close>

function gap_fill :: "char list \<Rightarrow> int \<Rightarrow> int \<Rightarrow> fault + char list" where
  "gap_fill t i x =
     (if i < x then
        (if 0 \<le> i \<and> i < int (length t) then
           gap_fill (if t ! nat i = NUL then t[nat i := SPACE] else t) (i + 1) x
         else Inl OutOfBounds)
      else Inr t)"
  by pat_completeness auto
termination
  by (relation "measure (\<lambda>(t, i, x). nat (x - i))") auto

text \<open>
  The second loop,
  \<^verbatim>\<open>for (int i = strlen(text); i >= x; i--) text[i + 1] = text[i]\<close>, from its
  first value of \<^verbatim>\<open>i\<close> on.
\<close>

function shift_right :: "char list \<Rightarrow> int \<Rightarrow> int \<Rightarrow> fault + char list" where
  "shift_right t i x =
     (if i \<ge> x then
        (if 0 \<le> i \<and> i + 1 < int (length t) then
           shift_right (t[nat (i + 1) := t ! nat i]) (i - 1) x
         else Inl OutOfBounds)
      else Inr t)"
  by pat_completeness auto
termination
  by (relation "measure (\<lambda>(t, i, x). nat (i - x + 1))") auto

text \<open>
  The text part of \<^verbatim>\<open>buffer_insert_character\<close>. The character arrives as an
  \<^verbatim>\<open>int\<close> and is stored in a \<^verbatim>\<open>char\<close>, which keeps its low eight bits.
\<close>

definition insert_text :: "char list \<Rightarrow> int \<Rightarrow> int \<Rightarrow> fault + char list" where
  "insert_text t ch x =
     (case gap_fill t 0 x of
        Inl e \<Rightarrow> Inl e
      | Inr t1 \<Rightarrow>
          (if 0 \<le> x \<and> x < int (length t1) then
             (if t1 ! nat x \<noteq> NUL then
                (case strlen t1 of
                   Inl e \<Rightarrow> Inl e
                 | Inr n \<Rightarrow>
                     (case shift_right t1 (int n) x of
                        Inl e \<Rightarrow> Inl e
                      | Inr t2 \<Rightarrow> Inr (t2[nat x := char_of ch])))
              else Inr (t1[nat x := char_of ch]))
           else Inl OutOfBounds))"

definition buffer_insert_character :: "Buffer \<Rightarrow> int \<Rightarrow> int \<Rightarrow> int \<Rightarrow> fault + Buffer" where
  "buffer_insert_character b ch x y =
     (case buffer_select_node b y of
        Inl e \<Rightarrow> Inl e
      | Inr b1 \<Rightarrow> on_current_text (\<lambda>t. insert_text t ch x) b1)"

subsection \<open>Reading the store\<close>

text \<open>The array of the line under \<^verbatim>\<open>current\<close>, when the pointer is valid.\<close>

definition current_text :: "Buffer \<Rightarrow> char list option" where
  "current_text b =
     (case current b of
        None \<Rightarrow> None
      | Some a \<Rightarrow> if a < length (mem b) then Some (node_text (mem b ! a)) else None)"

text \<open>
  \<open>chain m p as\<close>: following \<^verbatim>\<open>next\<close> from the pointer \<open>p\<close> visits exactly the
  addresses \<open>as\<close>, all valid, and then reaches NULL. This is the walk of the print
  loop in \<^verbatim>\<open>main\<close>, \<^verbatim>\<open>while (iter != NULL) { ...; iter = iter->next; }\<close>.
\<close>

fun chain :: "node_t list \<Rightarrow> ptr \<Rightarrow> nat list \<Rightarrow> bool" where
  "chain m p [] = (p = None)"
| "chain m p (a # as) = (p = Some a \<and> a < length m \<and> chain m (node_next (m ! a)) as)"

text \<open>The rows of the store are the nodes from \<^verbatim>\<open>head\<close> on, row \<open>k\<close> at \<open>as ! k\<close>.\<close>

definition rows :: "Buffer \<Rightarrow> nat list \<Rightarrow> bool" where
  "rows b as = chain (mem b) (head b) as"

text \<open>
  A store of one row, for examples: the array holds the string \<open>s\<close> and terminators
  after it, and both pointers are at the row.
\<close>

definition one_line :: "string \<Rightarrow> Buffer" where
  "one_line s =
     \<lparr>mem = [\<lparr>node_text = s @ replicate (MAX_LINE_LEN - length s) NUL, node_next = None\<rparr>],
      head = Some 0, current = Some 0\<rparr>"

text \<open>
  \<^verbatim>\<open>calloc\<close> hands out arrays of zeros, and the editor only inserts printable
  characters, so a line of the editor holds its content and then only terminators.
\<close>

definition zero_padded :: "char list \<Rightarrow> bool" where
  "zero_padded t = list_all (\<lambda>c. c = NUL) (dropWhile (\<lambda>c. c \<noteq> NUL) t)"

text \<open>
  The invariant of the store: every array has the size \<open>MAX_LINE_LEN\<close> and holds only
  terminators after its content.
\<close>

definition editor_lines :: "Buffer \<Rightarrow> bool" where
  "editor_lines b =
     list_all (\<lambda>n. length (node_text n) = MAX_LINE_LEN \<and> zero_padded (node_text n)) (mem b)"

section \<open>Properties of the text loops\<close>

text \<open>
  Each loop is one equation that calls itself, so its equation is taken out of the
  simplifier and unfolded one round at a time.
\<close>

declare select_loop.simps [simp del]
declare shift_left.simps [simp del]
declare gap_fill.simps [simp del]
declare shift_right.simps [simp del]

subsection \<open>strlen and the left shift\<close>

lemma strlen_Inr_iff:
  "strlen t = Inr n \<longleftrightarrow> n < length t \<and> t ! n = NUL \<and> (\<forall>p<n. t ! p \<noteq> NUL)"
proof (induction t arbitrary: n)
  case Nil
  then show ?case by simp
next
  case (Cons c cs)
  show ?case
  proof (cases "c = NUL")
    case True
    then show ?thesis by (cases n) auto
  next
    case False
    show ?thesis
    proof (cases n)
      case 0
      with False show ?thesis by (auto split: sum.splits)
    next
      case (Suc k)
      have "(\<forall>p<Suc k. (c # cs) ! p \<noteq> NUL) \<longleftrightarrow> (\<forall>p<k. cs ! p \<noteq> NUL)"
        using False by (auto simp: less_Suc_eq_0_disj)
      with False Suc Cons.IH [of k] show ?thesis
        by (auto split: sum.splits)
    qed
  qed
qed

lemma strlen_unique:
  "n < length t \<Longrightarrow> t ! n = NUL \<Longrightarrow> \<forall>p<n. t ! p \<noteq> NUL \<Longrightarrow> strlen t = Inr n"
  by (simp add: strlen_Inr_iff)

lemma shift_left_spec:
  "strlen t = Inr L \<Longrightarrow> 0 \<le> i \<Longrightarrow>
   \<exists>t'. shift_left t i = Inr t' \<and> length t' = length t \<and>
     (\<forall>p<length t. t' ! p = (if nat i \<le> p \<and> p < L then t ! Suc p else t ! p))"
proof (induction t i arbitrary: L rule: shift_left.induct)
  case (1 t i)
  from "1.prems" have L: "L < length t" "t ! L = NUL" "\<forall>p<L. t ! p \<noteq> NUL"
    by (simp_all add: strlen_Inr_iff)
  show ?case
  proof (cases "i < int L")
    case False
    with "1.prems" show ?thesis
      by (subst shift_left.simps) auto
  next
    case True
    let ?t1 = "t[nat i := t ! nat (i + 1)]"
    have i1: "i + 1 < int (length t)" using True L by linarith
    have nat1: "nat (i + 1) = Suc (nat i)" using "1.prems" by simp
    define L1 where "L1 = (if nat i + 1 = L then nat i else L)"
    have s1: "strlen ?t1 = Inr L1"
      apply (rule strlen_unique)
      using L True "1.prems" i1 unfolding L1_def nat1
      by (auto simp: nth_list_update)
    from "1.IH" [OF "1.prems"(1) _ i1 s1] True "1.prems"
    obtain t' where t': "shift_left ?t1 (i + 1) = Inr t'" "length t' = length t"
      "\<forall>p<length t. t' ! p = (if nat (i + 1) \<le> p \<and> p < L1 then ?t1 ! Suc p else ?t1 ! p)"
      by auto
    have "shift_left t i = Inr t'"
      using "1.prems" True i1 t'(1) by (subst shift_left.simps) simp
    moreover have "\<forall>p<length t. t' ! p = (if nat i \<le> p \<and> p < L then t ! Suc p else t ! p)"
      using t'(3) L True "1.prems" unfolding L1_def nat1
      by (auto simp: nth_list_update)
    ultimately show ?thesis using t'(2) by blast
  qed
qed


subsection \<open>The gap fill and the right shift\<close>

lemma gap_fill_spec:
  "0 \<le> i \<Longrightarrow> x \<le> int (length t) \<Longrightarrow>
   \<exists>t'. gap_fill t i x = Inr t' \<and> length t' = length t \<and>
     (\<forall>p<length t. t' ! p = (if nat i \<le> p \<and> int p < x \<and> t ! p = NUL then SPACE else t ! p))"
proof (induction t i x rule: gap_fill.induct)
  case (1 t i x)
  show ?case
  proof (cases "i < x")
    case False
    then show ?thesis by (subst gap_fill.simps) auto
  next
    case True
    let ?t1 = "if t ! nat i = NUL then t[nat i := SPACE] else t"
    have b: "0 \<le> i \<and> i < int (length t)" using True "1.prems" by linarith
    have len1: "length ?t1 = length t" by simp
    from "1.IH" [OF True b] "1.prems" len1
    obtain t' where t': "gap_fill ?t1 (i + 1) x = Inr t'" "length t' = length t"
      "\<forall>p<length t. t' ! p = (if nat (i + 1) \<le> p \<and> int p < x \<and> ?t1 ! p = NUL then SPACE else ?t1 ! p)"
      by auto
    have "gap_fill t i x = Inr t'"
      using True b t'(1) by (subst gap_fill.simps) simp
    moreover have "\<forall>p<length t. t' ! p = (if nat i \<le> p \<and> int p < x \<and> t ! p = NUL then SPACE else t ! p)"
    proof (intro allI impI)
      fix p assume p: "p < length t"
      have ns: "SPACE \<noteq> NUL" by (simp add: SPACE_def NUL_def)
      show "t' ! p = (if nat i \<le> p \<and> int p < x \<and> t ! p = NUL then SPACE else t ! p)"
      proof (cases "p = nat i")
        case True
        with t'(3) p b ns \<open>i < x\<close> show ?thesis by (auto simp: nth_list_update)
      next
        case False
        then have "?t1 ! p = t ! p" by (simp add: nth_list_update)
        moreover have "nat (i + 1) \<le> p \<longleftrightarrow> nat i \<le> p" using False b by auto
        ultimately show ?thesis using t'(3) p by simp
      qed
    qed
    ultimately show ?thesis using t'(2) by blast
  qed
qed

lemma gap_fill_overrun:
  "0 \<le> i \<Longrightarrow> int (length t) < x \<Longrightarrow> i \<le> int (length t) \<Longrightarrow> gap_fill t i x = Inl OutOfBounds"
proof (induction t i x rule: gap_fill.induct)
  case (1 t i x)
  show ?case
  proof (cases "i < int (length t)")
    case True
    let ?t1 = "if t ! nat i = NUL then t[nat i := SPACE] else t"
    have ix: "i < x" using True "1.prems" by linarith
    have len1: "length ?t1 = length t" by simp
    have "gap_fill ?t1 (i + 1) x = Inl OutOfBounds"
      using "1.IH" [OF ix] True "1.prems" len1 by auto
    then show ?thesis using ix True "1.prems" by (subst gap_fill.simps) simp
  next
    case False
    then show ?thesis using "1.prems" by (subst gap_fill.simps) simp
  qed
qed

lemma shift_right_spec:
  "0 \<le> x \<Longrightarrow> x \<le> i + 1 \<Longrightarrow> i + 1 < int (length t) \<Longrightarrow>
   \<exists>t'. shift_right t i x = Inr t' \<and> length t' = length t \<and>
     (\<forall>p<length t. t' ! p = (if nat x < p \<and> int p \<le> i + 1 then t ! (p - 1) else t ! p))"
proof (induction t i x rule: shift_right.induct)
  case (1 t i x)
  show ?case
  proof (cases "i \<ge> x")
    case False
    with "1.prems" have "i + 1 = x" by simp
    with False "1.prems" show ?thesis by (subst shift_right.simps) auto
  next
    case True
    let ?t1 = "t[nat (i + 1) := t ! nat i]"
    have b: "0 \<le> i \<and> i + 1 < int (length t)" using True "1.prems" by linarith
    from "1.IH" [OF True b] "1.prems" True
    obtain t' where t': "shift_right ?t1 (i - 1) x = Inr t'" "length t' = length t"
      "\<forall>p<length t. t' ! p = (if nat x < p \<and> int p \<le> i - 1 + 1 then ?t1 ! (p - 1) else ?t1 ! p)"
      by auto
    have "shift_right t i x = Inr t'"
      using True b t'(1) by (subst shift_right.simps) simp
    moreover have "\<forall>p<length t. t' ! p = (if nat x < p \<and> int p \<le> i + 1 then t ! (p - 1) else t ! p)"
    proof (intro allI impI)
      fix p assume p: "p < length t"
      have n1: "nat (i + 1) = Suc (nat i)" using b by linarith
      consider "int p \<le> i" | "p = Suc (nat i)" | "int p > i + 1" using b by linarith
      then show "t' ! p = (if nat x < p \<and> int p \<le> i + 1 then t ! (p - 1) else t ! p)"
      proof cases
        case 1
        then have "p \<noteq> Suc (nat i)" "p - 1 \<noteq> Suc (nat i)" using b by linarith+
        then have "?t1 ! p = t ! p" "?t1 ! (p - 1) = t ! (p - 1)"
          unfolding n1 by simp_all
        with t'(3) p 1 show ?thesis by auto
      next
        case 2
        with t'(3) p b True "1.prems" show ?thesis unfolding n1 by (auto simp: nth_list_update)
      next
        case 3
        then have "p \<noteq> Suc (nat i)" using b by linarith
        then have "?t1 ! p = t ! p" unfolding n1 by simp
        with t'(3) p 3 show ?thesis by auto
      qed
    qed
    ultimately show ?thesis using t'(2) by blast
  qed
qed

subsection \<open>The text part of delete and insert\<close>

lemma SPACE_not_NUL: "SPACE \<noteq> NUL"
  by (simp add: SPACE_def NUL_def)

lemma remove_text_noop:
  assumes "strlen t = Inr L" and "x \<le> 0 \<or> int L \<le> x - 1" and "- (2 ^ 31) \<le> x - 1"
  shows "remove_text t x = Inr t"
proof -
  have "shift_left t (x - 1) = Inr t"
    using assms by (subst shift_left.simps) auto
  moreover have "t[L := NUL] = t"
    using assms(1) by (simp add: strlen_Inr_iff list_update_same_conv)
  ultimately show ?thesis using assms by (simp add: remove_text_def)
qed

lemma remove_text_spec:
  assumes "strlen t = Inr L" and "1 \<le> x" and "nat x \<le> L"
  shows "\<exists>t'. remove_text t x = Inr t' \<and> length t' = length t \<and> strlen t' = Inr (L - 1) \<and>
           (\<forall>p<length t. t' ! p = (if nat x - 1 \<le> p \<and> p < L then t ! Suc p else t ! p))"
proof -
  from assms have L: "L < length t" "t ! L = NUL" "\<forall>p<L. t ! p \<noteq> NUL"
    by (simp_all add: strlen_Inr_iff)
  have nx: "nat (x - 1) = nat x - 1" using assms by simp
  from shift_left_spec [OF assms(1), of "x - 1"] assms(2)
  obtain t1 where t1: "shift_left t (x - 1) = Inr t1" "length t1 = length t"
    "\<forall>p<length t. t1 ! p = (if nat x - 1 \<le> p \<and> p < L then t ! Suc p else t ! p)"
    unfolding nx by auto
  have pos: "0 < L" "nat x - 1 \<le> L - 1" using assms by linarith+
  have s1: "strlen t1 = Inr (L - 1)"
  proof (rule strlen_unique)
    show "L - 1 < length t1" using L t1(2) by simp
    show "t1 ! (L - 1) = NUL" using t1(3) L pos by simp
    show "\<forall>p<L - 1. t1 ! p \<noteq> NUL"
    proof (intro allI impI)
      fix p assume "p < L - 1"
      then have "p < length t" "p < L" "Suc p < L" using L by linarith+
      then show "t1 ! p \<noteq> NUL" using t1(3) L(3) by simp
    qed
  qed
  have "t1[L - 1 := NUL] = t1"
    using s1 by (simp add: strlen_Inr_iff list_update_same_conv)
  then have "remove_text t x = Inr t1"
    using t1(1) s1 assms(2) by (simp add: remove_text_def)
  then show ?thesis using t1(2,3) s1 by blast
qed

lemma insert_text_at_terminator:
  assumes "0 \<le> x" and "nat x < length t" and "t ! nat x = NUL"
  shows "\<exists>t'. insert_text t ch x = Inr t' \<and> length t' = length t \<and>
           (\<forall>p<length t. t' ! p =
              (if p = nat x then char_of ch else if p < nat x \<and> t ! p = NUL then SPACE else t ! p))"
proof -
  have xl: "x \<le> int (length t)" using assms by linarith
  from gap_fill_spec [OF _ xl, of 0]
  obtain t1 where t1: "gap_fill t 0 x = Inr t1" "length t1 = length t"
    "\<forall>p<length t. t1 ! p = (if int p < x \<and> t ! p = NUL then SPACE else t ! p)"
    by auto
  have "t1 ! nat x = NUL" using t1(3) assms by simp
  then have "insert_text t ch x = Inr (t1[nat x := char_of ch])"
    using t1(1,2) assms by (simp add: insert_text_def)
  moreover have "\<forall>p<length t. (t1[nat x := char_of ch]) ! p =
      (if p = nat x then char_of ch else if p < nat x \<and> t ! p = NUL then SPACE else t ! p)"
    using t1(2,3) assms by (auto simp: nth_list_update)
  ultimately show ?thesis using t1(2) by simp
qed

lemma insert_text_shift:
  assumes "strlen t = Inr L" and "0 \<le> x" and "nat x < L" and "Suc L < length t"
  shows "\<exists>t'. insert_text t ch x = Inr t' \<and> length t' = length t \<and>
           (\<forall>p<length t. t' ! p =
              (if p = nat x then char_of ch else if nat x < p \<and> p \<le> Suc L then t ! (p - 1) else t ! p))"
proof -
  from assms have L: "L < length t" "t ! L = NUL" "\<forall>p<L. t ! p \<noteq> NUL"
    by (simp_all add: strlen_Inr_iff)
  have xl: "x \<le> int (length t)" using assms L by linarith
  from gap_fill_spec [OF _ xl, of 0]
  obtain t1 where t1: "gap_fill t 0 x = Inr t1" "length t1 = length t"
    "\<forall>p<length t. t1 ! p = (if int p < x \<and> t ! p = NUL then SPACE else t ! p)"
    by auto
  have "\<forall>p<length t. t1 ! p = t ! p"
  proof (intro allI impI)
    fix p assume p: "p < length t"
    have "int p < x \<Longrightarrow> t ! p \<noteq> NUL" using L(3) assms by auto
    with t1(3) p show "t1 ! p = t ! p" by auto
  qed
  with t1(2) have eq: "t1 = t" by (simp add: nth_equalityI)
  have nz: "t ! nat x \<noteq> NUL" using L(3) assms by simp
  have "x \<le> int L + 1" "int L + 1 < int (length t)" using assms by linarith+
  from shift_right_spec [OF assms(2) this]
  obtain t2 where t2: "shift_right t (int L) x = Inr t2" "length t2 = length t"
    "\<forall>p<length t. t2 ! p = (if nat x < p \<and> int p \<le> int L + 1 then t ! (p - 1) else t ! p)"
    by auto
  have "insert_text t ch x = Inr (t2[nat x := char_of ch])"
    using t1(1) eq nz assms L t2(1) by (simp add: insert_text_def)
  moreover have "\<forall>p<length t. (t2[nat x := char_of ch]) ! p =
      (if p = nat x then char_of ch else if nat x < p \<and> p \<le> Suc L then t ! (p - 1) else t ! p)"
    using t2(2,3) by (auto simp: nth_list_update)
  ultimately show ?thesis using t2(2) by simp
qed

lemma insert_text_out_of_bounds:
  assumes "x < 0 \<or> int (length t) \<le> x"
  shows "insert_text t ch x = Inl OutOfBounds"
proof (cases "x < 0")
  case True
  then have "gap_fill t 0 x = Inr t" by (subst gap_fill.simps) simp
  with True show ?thesis by (simp add: insert_text_def)
next
  case False
  with assms have ge: "int (length t) \<le> x" by simp
  show ?thesis
  proof (cases "int (length t) = x")
    case True
    from gap_fill_spec [of 0 x t] True
    obtain t1 where "gap_fill t 0 x = Inr t1" "length t1 = length t" by auto
    with True show ?thesis by (simp add: insert_text_def)
  next
    case False
    with ge have "int (length t) < x" by simp
    then have "gap_fill t 0 x = Inl OutOfBounds" by (simp add: gap_fill_overrun)
    then show ?thesis by (simp add: insert_text_def)
  qed
qed

section \<open>Properties of the line store\<close>

subsection \<open>Chains of nodes\<close>

lemma chain_unique: "chain m p as \<Longrightarrow> chain m p bs \<Longrightarrow> as = bs"
proof (induction as arbitrary: p bs)
  case Nil
  then show ?case by (cases bs) auto
next
  case (Cons a as)
  then show ?case by (cases bs) auto
qed

lemma chain_append:
  "chain m p (us @ v # vs) \<Longrightarrow> chain m (Some v) (v # vs)"
  by (induction us arbitrary: p) auto

lemma chain_distinct: "chain m p as \<Longrightarrow> distinct as"
proof (induction as arbitrary: p)
  case Nil
  then show ?case by simp
next
  case (Cons a as)
  then have tl: "chain m (node_next (m ! a)) as" and d: "distinct as" by auto
  have "a \<notin> set as"
  proof
    assume "a \<in> set as"
    then obtain us vs where as: "as = us @ a # vs" by (auto simp: in_set_conv_decomp)
    with tl have "chain m (Some a) (a # vs)" by (auto dest: chain_append)
    then have "chain m (node_next (m ! a)) vs" by simp
    with tl have "as = vs" by (rule chain_unique)
    with as show False by simp
  qed
  with d show ?case by simp
qed

lemma chain_frame:
  "chain m p as \<Longrightarrow> length m \<le> length m' \<Longrightarrow>
   \<forall>a\<in>set as. node_next (m' ! a) = node_next (m ! a) \<Longrightarrow> chain m' p as"
  by (induction as arbitrary: p) auto

lemma chain_valid: "chain m p as \<Longrightarrow> a \<in> set as \<Longrightarrow> a < length m"
  by (induction as arbitrary: p) auto

subsection \<open>The walk of buffer\_select\_node\<close>

lemma select_loop_chain:
  "chain m (Some c) cs \<Longrightarrow> k = nat (y - i) \<Longrightarrow>
   \<exists>m'. select_loop m (Some c) i y = Inr (m', Some ((cs @ [length m ..< length m + (Suc k - length cs)]) ! k)) \<and>
        chain m' (Some c) (cs @ [length m ..< length m + (Suc k - length cs)]) \<and>
        length m' = length m + (Suc k - length cs) \<and>
        (k < length cs \<longrightarrow> m' = m) \<and>
        (\<forall>a<length m. node_text (m' ! a) = node_text (m ! a)) \<and>
        (\<forall>a<length m. a \<notin> set cs \<longrightarrow> m' ! a = m ! a) \<and>
        (\<forall>a. length m \<le> a \<and> a < length m' \<longrightarrow> node_text (m' ! a) = replicate MAX_LINE_LEN NUL)"
proof (induction k arbitrary: m c cs i)
  case 0
  then have "\<not> i < y" by simp
  then have "select_loop m (Some c) i y = Inr (m, Some c)"
    by (subst select_loop.simps) simp
  moreover from "0.prems" obtain cs' where "cs = c # cs'" by (cases cs) auto
  ultimately show ?case using "0.prems" by auto
next
  case (Suc k)
  then have iy: "i < y" and k: "k = nat (y - (i + 1))" by linarith+
  from Suc.prems obtain cs' where cs: "cs = c # cs'" and c: "c < length m"
    and tl: "chain m (node_next (m ! c)) cs'" by (cases cs) auto
  show ?case
  proof (cases "node_next (m ! c)")
    case (Some a)
    with tl have ch: "chain m (Some a) cs'" by simp
    then have ne: "cs' \<noteq> []" by auto
    let ?news = "[length m ..< length m + (Suc k - length cs')]"
    from Suc.IH [OF ch k] obtain m' where m':
      "select_loop m (Some a) (i + 1) y = Inr (m', Some ((cs' @ ?news) ! k))"
      "chain m' (Some a) (cs' @ ?news)"
      "length m' = length m + (Suc k - length cs')"
      "k < length cs' \<longrightarrow> m' = m"
      "\<forall>a<length m. node_text (m' ! a) = node_text (m ! a)"
      "\<forall>a<length m. a \<notin> set cs' \<longrightarrow> m' ! a = m ! a"
      "\<forall>a. length m \<le> a \<and> a < length m' \<longrightarrow> node_text (m' ! a) = replicate MAX_LINE_LEN NUL"
      by blast
    have news: "[length m ..< length m + (Suc (Suc k) - length cs)] = ?news"
      using cs by simp
    have "c \<notin> set cs'" using chain_distinct [OF Suc.prems(1)] cs by simp
    with m'(6) c have same: "m' ! c = m ! c" by simp
    have run: "select_loop m (Some c) i y = Inr (m', Some ((cs' @ ?news) ! k))"
      using iy c Some m'(1) by (subst select_loop.simps) simp
    have "chain m' (Some c) (c # cs' @ ?news)"
      using m'(2,3) c same Some by simp
    then show ?thesis
      unfolding news using run m'(3,4,5,6,7) cs by auto
  next
    case None
    with tl have cs': "cs' = []" by (cases cs') auto
    let ?m2 = "(m @ [zero_node])[c := ((m @ [zero_node]) ! c)\<lparr>node_next := Some (length m)\<rparr>]"
    let ?news = "[length ?m2 ..< length ?m2 + (Suc k - length [length m])]"
    have len2: "length ?m2 = Suc (length m)" by simp
    have ch: "chain ?m2 (Some (length m)) [length m]"
      using c by (simp add: nth_append zero_node_def)
    from Suc.IH [OF ch k] obtain m' where m':
      "select_loop ?m2 (Some (length m)) (i + 1) y = Inr (m', Some (([length m] @ ?news) ! k))"
      "chain m' (Some (length m)) ([length m] @ ?news)"
      "length m' = length ?m2 + (Suc k - length [length m])"
      "\<forall>a<length ?m2. node_text (m' ! a) = node_text (?m2 ! a)"
      "\<forall>a<length ?m2. a \<notin> set [length m] \<longrightarrow> m' ! a = ?m2 ! a"
      "\<forall>a. length ?m2 \<le> a \<and> a < length m' \<longrightarrow> node_text (m' ! a) = replicate MAX_LINE_LEN NUL"
      by blast
    have news: "[length m ..< length m + (Suc (Suc k) - length cs)] = length m # ?news"
      using cs cs' by (simp add: upt_conv_Cons)
    have run: "select_loop m (Some c) i y = Inr (m', Some (([length m] @ ?news) ! k))"
      using iy c None m'(1) by (subst select_loop.simps) (simp add: calloc_node_def)
    have same: "m' ! c = ?m2 ! c" using m'(5) c by simp
    have chn: "chain m' (Some c) (c # length m # ?news)"
      using m'(2,3) c same by simp
    have texts: "\<forall>a<length m. node_text (m' ! a) = node_text (m ! a)"
    proof (intro allI impI)
      fix a assume a: "a < length m"
      then have "node_text (m' ! a) = node_text (?m2 ! a)" using m'(4) by simp
      also have "\<dots> = node_text (m ! a)" using a by (cases "a = c") (simp_all add: nth_append)
      finally show "node_text (m' ! a) = node_text (m ! a)" .
    qed
    have frame: "\<forall>a<length m. a \<notin> set cs \<longrightarrow> m' ! a = m ! a"
    proof (intro allI impI)
      fix a assume a: "a < length m" "a \<notin> set cs"
      then have "m' ! a = ?m2 ! a" using m'(5) by simp
      also have "\<dots> = m ! a" using a cs by (simp add: nth_append)
      finally show "m' ! a = m ! a" .
    qed
    have zeroed: "\<forall>a. length m \<le> a \<and> a < length m' \<longrightarrow> node_text (m' ! a) = replicate MAX_LINE_LEN NUL"
    proof (intro allI impI)
      fix a assume a: "length m \<le> a \<and> a < length m'"
      show "node_text (m' ! a) = replicate MAX_LINE_LEN NUL"
      proof (cases "a = length m")
        case True
        then have "node_text (m' ! a) = node_text (?m2 ! a)" using m'(4) by simp
        also have "\<dots> = replicate MAX_LINE_LEN NUL" using True c by (simp add: zero_node_def)
        finally show ?thesis .
      next
        case False
        with a m'(6) show ?thesis by simp
      qed
    qed
    have len: "length m' = length m + (Suc (Suc k) - length cs)"
      using m'(3) cs cs' by simp
    have idx: "(cs @ length m # ?news) ! Suc k = ([length m] @ ?news) ! k"
      using cs cs' by simp
    have nok: "\<not> Suc k < length cs" using cs cs' by simp
    show ?thesis
      unfolding news using run chn texts frame zeroed len idx nok cs cs' by auto
  qed
qed

lemma buffer_select_node_rows:
  assumes "rows b as"
  shows "\<exists>b1. buffer_select_node b y = Inr b1 \<and>
           rows b1 (as @ [length (mem b) ..< length (mem b) + (Suc (nat y) - length as)]) \<and>
           current b1 = Some ((as @ [length (mem b) ..< length (mem b) + (Suc (nat y) - length as)]) ! nat y) \<and>
           length (mem b1) = length (mem b) + (Suc (nat y) - length as) \<and>
           (nat y < length as \<longrightarrow> b1 = b\<lparr>current := Some (as ! nat y)\<rparr>) \<and>
           (\<forall>a<length (mem b). node_text (mem b1 ! a) = node_text (mem b ! a)) \<and>
           (\<forall>a. length (mem b) \<le> a \<and> a < length (mem b1) \<longrightarrow>
                node_text (mem b1 ! a) = replicate MAX_LINE_LEN NUL)"
proof (cases as)
  case Nil
  with assms have hd: "head b = None" by (simp add: rows_def)
  let ?n = "length (mem b)"
  let ?m1 = "mem b @ [zero_node]"
  let ?b1 = "b\<lparr>mem := ?m1, head := Some ?n, current := Some ?n\<rparr>"
  let ?news = "[length ?m1 ..< length ?m1 + (Suc (nat y) - length [?n])]"
  have ch: "chain ?m1 (Some ?n) [?n]" by (simp add: zero_node_def)
  from select_loop_chain [OF ch, of "nat y" y 0] obtain m' where m':
    "select_loop ?m1 (Some ?n) 0 y = Inr (m', Some (([?n] @ ?news) ! nat y))"
    "chain m' (Some ?n) ([?n] @ ?news)"
    "length m' = length ?m1 + (Suc (nat y) - length [?n])"
    "\<forall>a<length ?m1. node_text (m' ! a) = node_text (?m1 ! a)"
    "\<forall>a. length ?m1 \<le> a \<and> a < length m' \<longrightarrow> node_text (m' ! a) = replicate MAX_LINE_LEN NUL"
    by auto
  let ?b2 = "?b1\<lparr>mem := m', current := Some (([?n] @ ?news) ! nat y)\<rparr>"
  have news: "as @ [?n ..< ?n + (Suc (nat y) - length as)] = [?n] @ ?news"
    using Nil by (simp add: upt_conv_Cons)
  have run: "buffer_select_node b y = Inr ?b2"
    using hd m'(1) by (simp add: buffer_select_node_def calloc_node_def)
  have texts: "\<forall>a<?n. node_text (m' ! a) = node_text (mem b ! a)"
    using m'(4) by (simp add: nth_append)
  have zeroed: "\<forall>a. ?n \<le> a \<and> a < length m' \<longrightarrow> node_text (m' ! a) = replicate MAX_LINE_LEN NUL"
  proof (intro allI impI)
    fix a assume a: "?n \<le> a \<and> a < length m'"
    show "node_text (m' ! a) = replicate MAX_LINE_LEN NUL"
    proof (cases "a = ?n")
      case True
      then have "node_text (m' ! a) = node_text (?m1 ! a)" using m'(4) by simp
      then show ?thesis using True by (simp add: zero_node_def)
    next
      case False
      with a m'(5) show ?thesis by simp
    qed
  qed
  have "rows ?b2 ([?n] @ ?news)" using m'(2) by (simp add: rows_def)
  moreover have "length (mem ?b2) = ?n + (Suc (nat y) - length as)"
    using m'(3) Nil by simp
  moreover have "\<not> nat y < length as" using Nil by simp
  ultimately show ?thesis
    unfolding news using run texts zeroed by (intro exI [of _ ?b2]) simp
next
  case (Cons h as')
  with assms have hd: "head b = Some h" and ch: "chain (mem b) (Some h) as"
    by (simp_all add: rows_def)
  let ?n = "length (mem b)"
  let ?rows = "as @ [?n ..< ?n + (Suc (nat y) - length as)]"
  from select_loop_chain [OF ch, of "nat y" y 0] obtain m' where m':
    "select_loop (mem b) (Some h) 0 y = Inr (m', Some (?rows ! nat y))"
    "chain m' (Some h) ?rows"
    "length m' = ?n + (Suc (nat y) - length as)"
    "nat y < length as \<longrightarrow> m' = mem b"
    "\<forall>a<?n. node_text (m' ! a) = node_text (mem b ! a)"
    "\<forall>a. ?n \<le> a \<and> a < length m' \<longrightarrow> node_text (m' ! a) = replicate MAX_LINE_LEN NUL"
    by auto
  let ?b2 = "b\<lparr>mem := m', current := Some (?rows ! nat y)\<rparr>"
  have run: "buffer_select_node b y = Inr ?b2"
    using hd m'(1) by (simp add: buffer_select_node_def)
  have "rows ?b2 ?rows" using m'(2) hd by (simp add: rows_def)
  moreover have "nat y < length as \<longrightarrow> ?b2 = b\<lparr>current := Some (as ! nat y)\<rparr>"
    using m'(4) by (auto simp: nth_append)
  ultimately show ?thesis
    using run m'(3,5,6) by (intro exI [of _ ?b2]) simp
qed

subsection \<open>Working on the current line\<close>

lemma on_current_text_Inr:
  assumes "current_text b = Some t" and "f t = Inr t'"
  shows "\<exists>a. current b = Some a \<and> a < length (mem b) \<and>
           on_current_text f b = Inr (b\<lparr>mem := (mem b)[a := (mem b ! a)\<lparr>node_text := t'\<rparr>]\<rparr>) \<and>
           current_text (b\<lparr>mem := (mem b)[a := (mem b ! a)\<lparr>node_text := t'\<rparr>]\<rparr>) = Some t'"
  using assms
  by (auto simp: current_text_def on_current_text_def split: option.splits if_splits)

lemma on_current_text_same:
  assumes "current_text b = Some t" and "f t = Inr t"
  shows "on_current_text f b = Inr b"
proof -
  from assms(1) obtain a where a: "current b = Some a" "a < length (mem b)"
    "node_text (mem b ! a) = t"
    by (auto simp: current_text_def split: option.splits if_splits)
  have "(mem b ! a)\<lparr>node_text := t\<rparr> = mem b ! a" using a(3) by simp
  then have "(mem b)[a := (mem b ! a)\<lparr>node_text := t\<rparr>] = mem b"
    by (simp add: list_update_same_conv)
  then show ?thesis using a assms(2) by (simp add: on_current_text_def)
qed

lemma on_current_text_Inl:
  assumes "current_text b = Some t" and "f t = Inl e"
  shows "on_current_text f b = Inl e"
  using assms
  by (auto simp: current_text_def on_current_text_def split: option.splits if_splits)

lemma buffer_insert_beyond_array:
  assumes "buffer_select_node b y = Inr b1" and "current_text b1 = Some t"
    and "int (length t) \<le> x"
  shows "buffer_insert_character b ch x y = Inl OutOfBounds"
proof -
  have "insert_text t ch x = Inl OutOfBounds"
    using assms(3) by (simp add: insert_text_out_of_bounds)
  with assms(2) have "on_current_text (\<lambda>t. insert_text t ch x) b1 = Inl OutOfBounds"
    by (rule on_current_text_Inl)
  with assms(1) show ?thesis by (simp add: buffer_insert_character_def)
qed

subsection \<open>Delete followed by insert\<close>

lemma rows_text_update:
  assumes "rows b rs" and "a < length (mem b)"
  shows "rows (b\<lparr>mem := (mem b)[a := (mem b ! a)\<lparr>node_text := t'\<rparr>]\<rparr>) rs"
proof -
  let ?m = "(mem b)[a := (mem b ! a)\<lparr>node_text := t'\<rparr>]"
  have "\<forall>c\<in>set rs. node_next (?m ! c) = node_next (mem b ! c)"
  proof
    fix c assume "c \<in> set rs"
    with assms(1) have "c < length (mem b)" by (auto simp: rows_def dest: chain_valid)
    then show "node_next (?m ! c) = node_next (mem b ! c)"
      by (cases "c = a") simp_all
  qed
  moreover have "chain (mem b) (head b) rs" using assms(1) by (simp add: rows_def)
  moreover have "length (mem b) \<le> length ?m" by simp
  ultimately have "chain ?m (head b) rs" by (rule chain_frame [rotated 2])
  then show ?thesis by (simp add: rows_def)
qed

lemma insert_text_undoes_remove:
  assumes "strlen t = Inr L" and "1 \<le> x" and "nat x \<le> L"
    and "remove_text t x = Inr t1"
  shows "insert_text t1 (of_char (t ! (nat x - 1))) (x - 1) = Inr t"
proof -
  from assms(1) have L: "L < length t" "t ! L = NUL" "\<forall>p<L. t ! p \<noteq> NUL"
    by (simp_all add: strlen_Inr_iff)
  from remove_text_spec [OF assms(1,2,3)] assms(4) have t1:
    "length t1 = length t" "strlen t1 = Inr (L - 1)"
    "\<forall>p<length t. t1 ! p = (if nat x - 1 \<le> p \<and> p < L then t ! Suc p else t ! p)"
    by auto
  let ?c = "of_char (t ! (nat x - 1)) :: int"
  have x: "0 \<le> x - 1" "nat (x - 1) = nat x - 1" "nat x - 1 < L" using assms by linarith+
  have c: "char_of ?c = t ! (nat x - 1)" by simp
  have "\<exists>t2. insert_text t1 ?c (x - 1) = Inr t2 \<and> length t2 = length t \<and>
          (\<forall>p<length t. t2 ! p = t ! p)"
  proof (cases "nat x < L")
    case True
    then have lt: "nat (x - 1) < L - 1" "Suc (L - 1) < length t1" using x t1(1) L(1) by linarith+
    from insert_text_shift [OF t1(2) x(1) lt, of ?c] obtain t2 where t2:
      "insert_text t1 ?c (x - 1) = Inr t2" "length t2 = length t1"
      "\<forall>p<length t1. t2 ! p =
         (if p = nat (x - 1) then char_of ?c
          else if nat (x - 1) < p \<and> p \<le> Suc (L - 1) then t1 ! (p - 1) else t1 ! p)"
      by blast
    have "\<forall>p<length t. t2 ! p = t ! p"
    proof (intro allI impI)
      fix p assume p: "p < length t"
      consider "p < nat x - 1" | "p = nat x - 1" | "nat x - 1 < p" "p \<le> L" | "L < p" by linarith
      then show "t2 ! p = t ! p"
      proof cases
        case 1
        with t2(3) t1(1,3) p x show ?thesis by simp
      next
        case 2
        with t2(3) t1(1) p x c show ?thesis by simp
      next
        case 3
        then have "p - 1 < length t" "nat x - 1 \<le> p - 1" "p - 1 < L" "Suc (p - 1) = p"
          using p by linarith+
        with t1(3) have "t1 ! (p - 1) = t ! p" by simp
        with 3 t2(3) t1(1) p x show ?thesis by simp
      next
        case 4
        with t2(3) t1(1,3) p x show ?thesis by simp
      qed
    qed
    with t2(1,2) t1(1) show ?thesis by simp
  next
    case False
    with assms(3) have xL: "nat x = L" by simp
    have z: "t1 ! nat (x - 1) = NUL" using t1(3) x xL L by simp
    have b: "nat (x - 1) < length t1" using x t1(1) L(1) by linarith
    from insert_text_at_terminator [OF x(1) b z, of ?c] obtain t2 where t2:
      "insert_text t1 ?c (x - 1) = Inr t2" "length t2 = length t1"
      "\<forall>p<length t1. t2 ! p =
         (if p = nat (x - 1) then char_of ?c
          else if p < nat (x - 1) \<and> t1 ! p = NUL then SPACE else t1 ! p)"
      by blast
    have "\<forall>p<length t. t2 ! p = t ! p"
    proof (intro allI impI)
      fix p assume p: "p < length t"
      consider "p < L - 1" | "p = L - 1" | "L \<le> p" by linarith
      then show "t2 ! p = t ! p"
      proof cases
        case 1
        then have "t1 ! p = t ! p" "t ! p \<noteq> NUL" using t1(3) p xL L(3) by simp_all
        moreover have "p \<noteq> nat (x - 1)" using 1 x xL by linarith
        ultimately show ?thesis using t2(3) t1(1) p by simp
      next
        case 2
        then have "p = nat (x - 1)" using x xL by linarith
        then show ?thesis using t2(3) t1(1) p x c by simp
      next
        case 3
        then have "t1 ! p = t ! p" using t1(3) p by simp
        moreover have "p \<noteq> nat (x - 1)" "\<not> p < nat (x - 1)" using 3 x xL by linarith+
        ultimately show ?thesis using t2(3) t1(1) p by simp
      qed
    qed
    with t2(1,2) t1(1) show ?thesis by simp
  qed
  then obtain t2 where t2: "insert_text t1 ?c (x - 1) = Inr t2" "length t2 = length t"
    "\<forall>p<length t. t2 ! p = t ! p" by blast
  then have "t2 = t" by (simp add: nth_equalityI)
  with t2(1) show ?thesis by simp
qed

section \<open>The lines the editor builds\<close>

text \<open>
  The empty store satisfies \<open>editor_lines\<close>, and the three functions keep it, and keep
  the rows a chain, as long as no terminator is inserted as a character. So the
  lines that the claims below call zero padded are the lines of every store that the
  editor reaches from the empty one: \<^verbatim>\<open>main\<close> inserts printable characters only.
\<close>

subsection \<open>Zero padding of one array\<close>

lemma zero_padded_iff:
  "zero_padded t \<longleftrightarrow> (\<forall>i j. i \<le> j \<and> j < length t \<and> t ! i = NUL \<longrightarrow> t ! j = NUL)"
proof (induction t)
  case Nil
  then show ?case by (simp add: zero_padded_def)
next
  case (Cons c cs)
  show ?case
  proof (cases "c = NUL")
    case True
    have "zero_padded (c # cs) \<longleftrightarrow> (\<forall>j<length (c # cs). (c # cs) ! j = NUL)"
      using True by (simp add: zero_padded_def list_all_length)
    also have "\<dots> \<longleftrightarrow> (\<forall>i j. i \<le> j \<and> j < length (c # cs) \<and> (c # cs) ! i = NUL \<longrightarrow> (c # cs) ! j = NUL)"
    proof
      assume "\<forall>j<length (c # cs). (c # cs) ! j = NUL"
      then show "\<forall>i j. i \<le> j \<and> j < length (c # cs) \<and> (c # cs) ! i = NUL \<longrightarrow> (c # cs) ! j = NUL"
        by blast
    next
      assume a: "\<forall>i j. i \<le> j \<and> j < length (c # cs) \<and> (c # cs) ! i = NUL \<longrightarrow> (c # cs) ! j = NUL"
      show "\<forall>j<length (c # cs). (c # cs) ! j = NUL"
      proof (intro allI impI)
        fix j assume "j < length (c # cs)"
        with a [rule_format, of 0 j] True show "(c # cs) ! j = NUL" by simp
      qed
    qed
    finally show ?thesis .
  next
    case False
    have "zero_padded (c # cs) \<longleftrightarrow> zero_padded cs"
      using False by (simp add: zero_padded_def)
    also have "\<dots> \<longleftrightarrow> (\<forall>i j. i \<le> j \<and> j < length cs \<and> cs ! i = NUL \<longrightarrow> cs ! j = NUL)"
      by (rule Cons.IH)
    also have "\<dots> \<longleftrightarrow> (\<forall>i j. i \<le> j \<and> j < length (c # cs) \<and> (c # cs) ! i = NUL \<longrightarrow> (c # cs) ! j = NUL)"
    proof
      assume a: "\<forall>i j. i \<le> j \<and> j < length cs \<and> cs ! i = NUL \<longrightarrow> cs ! j = NUL"
      show "\<forall>i j. i \<le> j \<and> j < length (c # cs) \<and> (c # cs) ! i = NUL \<longrightarrow> (c # cs) ! j = NUL"
      proof (intro allI impI)
        fix i j assume h: "i \<le> j \<and> j < length (c # cs) \<and> (c # cs) ! i = NUL"
        with False obtain i' where i: "i = Suc i'" by (cases i) auto
        with h obtain j' where j: "j = Suc j'" by (cases j) auto
        from h i j a [rule_format, of i' j'] show "(c # cs) ! j = NUL" by simp
      qed
    next
      assume a: "\<forall>i j. i \<le> j \<and> j < length (c # cs) \<and> (c # cs) ! i = NUL \<longrightarrow> (c # cs) ! j = NUL"
      show "\<forall>i j. i \<le> j \<and> j < length cs \<and> cs ! i = NUL \<longrightarrow> cs ! j = NUL"
      proof (intro allI impI)
        fix i j assume h: "i \<le> j \<and> j < length cs \<and> cs ! i = NUL"
        with a [rule_format, of "Suc i" "Suc j"] show "cs ! j = NUL" by simp
      qed
    qed
    finally show ?thesis .
  qed
qed

lemma zero_padded_replicate: "zero_padded (replicate n NUL)"
  by (simp add: zero_padded_iff)

lemma zero_padded_remove_text:
  assumes "remove_text t x = Inr t'" and "zero_padded t"
  shows "zero_padded t' \<and> length t' = length t"
proof -
  from assms(1) obtain L where s: "strlen t = Inr L"
    by (cases "strlen t") (auto simp: remove_text_def shift_left.simps [of t] split: if_splits)
  then have L: "L < length t" "t ! L = NUL" "\<forall>p<L. t ! p \<noteq> NUL"
    by (simp_all add: strlen_Inr_iff)
  have ov: "- (2 ^ 31) \<le> x - 1"
    using assms(1) by (auto simp: remove_text_def split: if_splits)
  show ?thesis
  proof (cases "1 \<le> x \<and> nat x \<le> L")
    case False
    then have "x \<le> 0 \<or> int L \<le> x - 1" by linarith
    with s ov have "remove_text t x = Inr t" by (simp add: remove_text_noop)
    with assms show ?thesis by simp
  next
    case True
    with remove_text_spec [OF s, of x] assms(1) have t':
      "length t' = length t"
      "\<forall>p<length t. t' ! p = (if nat x - 1 \<le> p \<and> p < L then t ! Suc p else t ! p)"
      by auto
    have nul: "t' ! p = NUL \<longleftrightarrow> L - 1 \<le> p" if p: "p < length t" for p
    proof (cases "p < L - 1")
      case True
      then have "p < L" "Suc p < L" by linarith+
      with t'(2) p L(3) have "t' ! p \<noteq> NUL" by simp
      with True show ?thesis by simp
    next
      case False
      show ?thesis
      proof (cases "p = L - 1")
        case True
        with \<open>1 \<le> x \<and> nat x \<le> L\<close> have "nat x - 1 \<le> p" "p < L" "Suc p = L" by linarith+
        with t'(2) p L(2) True show ?thesis by simp
      next
        case False
        with \<open>\<not> p < L - 1\<close> have pl: "L \<le> p" by linarith
        then have "t ! p = NUL" using assms(2) L(2) p by (auto simp: zero_padded_iff)
        with t'(2) p pl show ?thesis by simp
      qed
    qed
    have "zero_padded t'"
      unfolding zero_padded_iff
    proof (intro allI impI)
      fix i j assume h: "i \<le> j \<and> j < length t' \<and> t' ! i = NUL"
      then have "i < length t" "j < length t" using t'(1) by simp_all
      with h nul [of i] nul [of j] show "t' ! j = NUL" by simp
    qed
    with t'(1) show ?thesis by simp
  qed
qed

lemma gap_fill_nothing:
  assumes "0 \<le> x" and "x \<le> int (length t)" and "\<forall>p. int p < x \<longrightarrow> t ! p \<noteq> NUL"
  shows "gap_fill t 0 x = Inr t"
proof -
  from gap_fill_spec [OF _ assms(2), of 0] obtain t1 where t1:
    "gap_fill t 0 x = Inr t1" "length t1 = length t"
    "\<forall>p<length t. t1 ! p = (if int p < x \<and> t ! p = NUL then SPACE else t ! p)"
    by auto
  have "\<forall>p<length t. t1 ! p = t ! p" using t1(3) assms(3) by auto
  with t1(2) have "t1 = t" by (simp add: nth_equalityI)
  with t1(1) show ?thesis by simp
qed

lemma zero_padded_insert_text:
  assumes "insert_text t ch x = Inr t'" and "zero_padded t" and "char_of ch \<noteq> NUL"
  shows "zero_padded t' \<and> length t' = length t"
proof -
  have "\<not> (x < 0 \<or> int (length t) \<le> x)"
    using assms(1) insert_text_out_of_bounds [of x t ch] by auto
  then have x: "0 \<le> x" "nat x < length t" and xi: "x < int (length t)" by linarith+
  have pad: "\<And>i j. i \<le> j \<Longrightarrow> j < length t \<Longrightarrow> t ! i = NUL \<Longrightarrow> t ! j = NUL"
    using assms(2) by (auto simp: zero_padded_iff)
  have "\<exists>k. length t' = length t \<and> (\<forall>p<length t. t' ! p = NUL \<longleftrightarrow> k \<le> p)"
  proof (cases "t ! nat x = NUL")
    case True
    from insert_text_at_terminator [OF x True, of ch] assms(1) have t':
      "length t' = length t"
      "\<forall>p<length t. t' ! p =
         (if p = nat x then char_of ch else if p < nat x \<and> t ! p = NUL then SPACE else t ! p)"
      by auto
    have "\<forall>p<length t. t' ! p = NUL \<longleftrightarrow> Suc (nat x) \<le> p"
    proof (intro allI impI)
      fix p assume p: "p < length t"
      consider "p < nat x" | "p = nat x" | "nat x < p" by linarith
      then show "t' ! p = NUL \<longleftrightarrow> Suc (nat x) \<le> p"
      proof cases
        case 1
        with t'(2) p SPACE_not_NUL show ?thesis by auto
      next
        case 2
        with t'(2) p assms(3) show ?thesis by simp
      next
        case 3
        then have "t ! p = NUL" using pad [of "nat x" p] True p by simp
        with 3 t'(2) p show ?thesis by simp
      qed
    qed
    with t'(1) show ?thesis by blast
  next
    case False
    have nz: "\<forall>p. int p < x \<longrightarrow> t ! p \<noteq> NUL"
    proof (intro allI impI)
      fix p assume "int p < x"
      then have "p \<le> nat x" by linarith
      then show "t ! p \<noteq> NUL" using pad [of p "nat x"] x False by blast
    qed
    have g: "gap_fill t 0 x = Inr t"
      using x nz by (intro gap_fill_nothing) simp_all
    from assms(1) g x xi False obtain L where s: "strlen t = Inr L"
      by (cases "strlen t") (auto simp: insert_text_def)
    then have L: "L < length t" "t ! L = NUL" "\<forall>p<L. t ! p \<noteq> NUL"
      by (simp_all add: strlen_Inr_iff)
    have xL: "nat x < L"
    proof (rule ccontr)
      assume "\<not> nat x < L"
      then have "L \<le> nat x" by simp
      then have "t ! nat x = NUL" using pad [of L "nat x"] x L(2) by simp
      with False show False by simp
    qed
    have SL: "Suc L < length t"
    proof (rule ccontr)
      assume n: "\<not> Suc L < length t"
      have "int L \<ge> x" using xL x by linarith
      then have "shift_right t (int L) x = Inl OutOfBounds"
        using n by (subst shift_right.simps) simp
      with assms(1) g x xi False s show False by (simp add: insert_text_def)
    qed
    from insert_text_shift [OF s x(1) xL SL, of ch] assms(1) have t':
      "length t' = length t"
      "\<forall>p<length t. t' ! p =
         (if p = nat x then char_of ch
          else if nat x < p \<and> p \<le> Suc L then t ! (p - 1) else t ! p)"
      by auto
    have "\<forall>p<length t. t' ! p = NUL \<longleftrightarrow> Suc L \<le> p"
    proof (intro allI impI)
      fix p assume p: "p < length t"
      consider "p < nat x" | "p = nat x" | "nat x < p" "p \<le> L" | "p = Suc L" | "Suc L < p"
        by linarith
      then show "t' ! p = NUL \<longleftrightarrow> Suc L \<le> p"
      proof cases
        case 1
        with t'(2) p L(3) xL show ?thesis by simp
      next
        case 2
        with t'(2) p assms(3) xL show ?thesis by simp
      next
        case 3
        then have "p - 1 < L" by linarith
        with 3 t'(2) p L(3) show ?thesis by simp
      next
        case 4
        with t'(2) p L(2) xL show ?thesis by simp
      next
        case 5
        then have "t ! p = NUL" using pad [of L p] p L(2) by simp
        with 5 t'(2) p xL show ?thesis by simp
      qed
    qed
    with t'(1) show ?thesis by blast
  qed
  then obtain k where k: "length t' = length t" "\<forall>p<length t. t' ! p = NUL \<longleftrightarrow> k \<le> p"
    by blast
  have "zero_padded t'"
    unfolding zero_padded_iff
  proof (intro allI impI)
    fix i j assume h: "i \<le> j \<and> j < length t' \<and> t' ! i = NUL"
    then have "i < length t" "j < length t" using k(1) by simp_all
    with h k(2) show "t' ! j = NUL" by (metis le_trans)
  qed
  with k(1) show ?thesis by simp
qed

subsection \<open>The invariant of the store\<close>

lemma editor_lines_empty_buffer: "editor_lines empty_buffer"
  by (simp add: editor_lines_def empty_buffer_def)

lemma editor_lines_select:
  assumes "rows b as" and "editor_lines b" and "buffer_select_node b y = Inr b1"
  shows "editor_lines b1 \<and> (\<exists>as'. rows b1 as')"
proof -
  from buffer_select_node_rows [OF assms(1), of y] assms(3) have b1:
    "rows b1 (as @ [length (mem b) ..< length (mem b) + (Suc (nat y) - length as)])"
    "length (mem b1) = length (mem b) + (Suc (nat y) - length as)"
    "\<forall>a<length (mem b). node_text (mem b1 ! a) = node_text (mem b ! a)"
    "\<forall>a. length (mem b) \<le> a \<and> a < length (mem b1) \<longrightarrow>
         node_text (mem b1 ! a) = replicate MAX_LINE_LEN NUL"
    by auto
  have "\<forall>a<length (mem b1).
      length (node_text (mem b1 ! a)) = MAX_LINE_LEN \<and> zero_padded (node_text (mem b1 ! a))"
  proof (intro allI impI)
    fix a assume a: "a < length (mem b1)"
    show "length (node_text (mem b1 ! a)) = MAX_LINE_LEN \<and> zero_padded (node_text (mem b1 ! a))"
    proof (cases "a < length (mem b)")
      case True
      with b1(3) assms(2) show ?thesis by (simp add: editor_lines_def list_all_length)
    next
      case False
      with b1(4) a have "node_text (mem b1 ! a) = replicate MAX_LINE_LEN NUL" by simp
      then show ?thesis by (simp add: zero_padded_replicate)
    qed
  qed
  then have "editor_lines b1" by (simp add: editor_lines_def list_all_length)
  with b1(1) show ?thesis by blast
qed

lemma on_current_text_InrD:
  assumes "on_current_text f b = Inr b2"
  shows "\<exists>a t'. current b = Some a \<and> a < length (mem b) \<and> f (node_text (mem b ! a)) = Inr t' \<and>
           b2 = b\<lparr>mem := (mem b)[a := (mem b ! a)\<lparr>node_text := t'\<rparr>]\<rparr>"
  using assms
  by (auto simp: on_current_text_def split: option.splits if_splits sum.splits)

lemma editor_lines_text_update:
  assumes "editor_lines b" and "a < length (mem b)"
    and "length t' = MAX_LINE_LEN" and "zero_padded t'"
  shows "editor_lines (b\<lparr>mem := (mem b)[a := (mem b ! a)\<lparr>node_text := t'\<rparr>]\<rparr>)"
proof -
  have "\<forall>c<length (mem b).
      length (node_text ((mem b)[a := (mem b ! a)\<lparr>node_text := t'\<rparr>] ! c)) = MAX_LINE_LEN \<and>
      zero_padded (node_text ((mem b)[a := (mem b ! a)\<lparr>node_text := t'\<rparr>] ! c))"
  proof (intro allI impI)
    fix c assume c: "c < length (mem b)"
    show "length (node_text ((mem b)[a := (mem b ! a)\<lparr>node_text := t'\<rparr>] ! c)) = MAX_LINE_LEN \<and>
      zero_padded (node_text ((mem b)[a := (mem b ! a)\<lparr>node_text := t'\<rparr>] ! c))"
    proof (cases "c = a")
      case True
      with assms(2,3,4) show ?thesis by simp
    next
      case False
      with c assms(1) show ?thesis by (simp add: editor_lines_def list_all_length)
    qed
  qed
  then show ?thesis by (simp add: editor_lines_def list_all_length)
qed

lemma editor_lines_remove:
  assumes "rows b as" and "editor_lines b" and "buffer_remove_character b x y = Inr b2"
  shows "editor_lines b2 \<and> (\<exists>as'. rows b2 as')"
proof -
  from assms(3) obtain b1 where b1: "buffer_select_node b y = Inr b1"
    "on_current_text (\<lambda>t. remove_text t x) b1 = Inr b2"
    by (auto simp: buffer_remove_character_def split: sum.splits)
  from editor_lines_select [OF assms(1,2) b1(1)] obtain as' where
    e1: "editor_lines b1" and r1: "rows b1 as'" by blast
  from on_current_text_InrD [OF b1(2)] obtain a t' where a:
    "a < length (mem b1)" "remove_text (node_text (mem b1 ! a)) x = Inr t'"
    "b2 = b1\<lparr>mem := (mem b1)[a := (mem b1 ! a)\<lparr>node_text := t'\<rparr>]\<rparr>"
    by blast
  have old: "length (node_text (mem b1 ! a)) = MAX_LINE_LEN" "zero_padded (node_text (mem b1 ! a))"
    using e1 a(1) by (simp_all add: editor_lines_def list_all_length)
  from zero_padded_remove_text [OF a(2) old(2)] old(1)
  have "length t' = MAX_LINE_LEN" "zero_padded t'" by simp_all
  with e1 a(1) have "editor_lines b2" unfolding a(3) by (intro editor_lines_text_update)
  moreover have "rows b2 as'" unfolding a(3) using r1 a(1) by (rule rows_text_update)
  ultimately show ?thesis by blast
qed

lemma editor_lines_insert:
  assumes "rows b as" and "editor_lines b" and "char_of ch \<noteq> NUL"
    and "buffer_insert_character b ch x y = Inr b2"
  shows "editor_lines b2 \<and> (\<exists>as'. rows b2 as')"
proof -
  from assms(4) obtain b1 where b1: "buffer_select_node b y = Inr b1"
    "on_current_text (\<lambda>t. insert_text t ch x) b1 = Inr b2"
    by (auto simp: buffer_insert_character_def split: sum.splits)
  from editor_lines_select [OF assms(1,2) b1(1)] obtain as' where
    e1: "editor_lines b1" and r1: "rows b1 as'" by blast
  from on_current_text_InrD [OF b1(2)] obtain a t' where a:
    "a < length (mem b1)" "insert_text (node_text (mem b1 ! a)) ch x = Inr t'"
    "b2 = b1\<lparr>mem := (mem b1)[a := (mem b1 ! a)\<lparr>node_text := t'\<rparr>]\<rparr>"
    by blast
  have old: "length (node_text (mem b1 ! a)) = MAX_LINE_LEN" "zero_padded (node_text (mem b1 ! a))"
    using e1 a(1) by (simp_all add: editor_lines_def list_all_length)
  from zero_padded_insert_text [OF a(2) old(2) assms(3)] old(1)
  have "length t' = MAX_LINE_LEN" "zero_padded t'" by simp_all
  with e1 a(1) have "editor_lines b2" unfolding a(3) by (intro editor_lines_text_update)
  moreover have "rows b2 as'" unfolding a(3) using r1 a(1) by (rule rows_text_update)
  ultimately show ?thesis by blast
qed

section \<open>The claims\<close>

text \<open>
  Claim C7. Let the store hold the rows \<open>as\<close> (so its line count is \<open>length as\<close>)
  and let \<open>y\<close> be at least that count. Then \<^verbatim>\<open>buffer_select_node\<close> returns, and it
  has allocated exactly \<open>y + 1 - length as\<close> nodes, which it linked behind the old rows
  in order: the rows are now the old ones followed by the new ones, without a hole,
  \<open>y + 1\<close> in all, and \<^verbatim>\<open>current\<close> is row \<open>y\<close>. Every new line is empty (all its
  bytes are zero) and the text of every old line is as before. On the empty store and
  \<open>y = 3\<close> this gives four empty lines, rows 0 to 3.
\<close>

theorem select_creates_missing_lines:
  assumes "rows b as" and "int (length as) \<le> y"
  shows "\<exists>b1. buffer_select_node b y = Inr b1 \<and>
           rows b1 (as @ [length (mem b) ..< length (mem b) + (nat y + 1 - length as)]) \<and>
           length (as @ [length (mem b) ..< length (mem b) + (nat y + 1 - length as)]) = nat y + 1 \<and>
           current b1 = Some ((as @ [length (mem b) ..< length (mem b) + (nat y + 1 - length as)]) ! nat y) \<and>
           length (mem b1) = length (mem b) + (nat y + 1 - length as) \<and>
           (\<forall>a\<in>set [length (mem b) ..< length (mem b) + (nat y + 1 - length as)].
               node_text (mem b1 ! a) = replicate MAX_LINE_LEN NUL \<and>
               strlen (node_text (mem b1 ! a)) = Inr 0) \<and>
           (\<forall>a\<in>set as. node_text (mem b1 ! a) = node_text (mem b ! a))"
proof -
  from buffer_select_node_rows [OF assms(1), of y] obtain b1 where b1:
    "buffer_select_node b y = Inr b1"
    "rows b1 (as @ [length (mem b) ..< length (mem b) + (Suc (nat y) - length as)])"
    "current b1 = Some ((as @ [length (mem b) ..< length (mem b) + (Suc (nat y) - length as)]) ! nat y)"
    "length (mem b1) = length (mem b) + (Suc (nat y) - length as)"
    "\<forall>a<length (mem b). node_text (mem b1 ! a) = node_text (mem b ! a)"
    "\<forall>a. length (mem b) \<le> a \<and> a < length (mem b1) \<longrightarrow>
         node_text (mem b1 ! a) = replicate MAX_LINE_LEN NUL"
    by blast
  have len: "length as \<le> nat y" using assms(2) by linarith
  have old: "\<forall>a\<in>set as. a < length (mem b)"
    using assms(1) by (auto simp: rows_def dest: chain_valid)
  have empty: "strlen (replicate MAX_LINE_LEN NUL) = Inr 0"
    by (rule strlen_unique) (simp_all add: MAX_LINE_LEN_def)
  show ?thesis
    using b1 len old empty by (intro exI [of _ b1]) auto
qed

theorem select_creates_missing_lines_witness:
  "rows empty_buffer [] \<and> int (length ([]::nat list)) \<le> 3 \<and>
   (\<exists>b1. buffer_select_node empty_buffer 3 = Inr b1 \<and> rows b1 [0, 1, 2, 3] \<and>
      length [0, 1, 2, 3 :: nat] = 4 \<and> current b1 = Some 3 \<and> length (mem b1) = 4 \<and>
      (\<forall>a\<in>set [0, 1, 2, 3]. node_text (mem b1 ! a) = replicate MAX_LINE_LEN NUL \<and>
          strlen (node_text (mem b1 ! a)) = Inr 0))"
proof -
  have r: "rows empty_buffer []" by (simp add: rows_def empty_buffer_def)
  have u: "[0 ..< 4] = [0, 1, 2, 3 :: nat]" by (simp add: upt_rec)
  show ?thesis
    using r select_creates_missing_lines [OF r, of 3] by (simp add: empty_buffer_def u)
qed

text \<open>
  Claim C6. On a store whose rows form a chain, \<^verbatim>\<open>buffer_select_node\<close> returns, and a
  second call with the same row, with nothing done in between, returns the very same
  store: \<^verbatim>\<open>current\<close> is the same address (the same line), the heap is the same (the
  same content, and no node was allocated by the second call). This holds for every
  row \<open>y\<close>, in particular for every \<open>y\<close> from 0 on.
\<close>

theorem select_twice_same_line:
  assumes "rows b as"
  shows "\<exists>b1. buffer_select_node b y = Inr b1 \<and> buffer_select_node b1 y = Inr b1 \<and>
           current b1 \<noteq> None"
proof -
  let ?rs = "as @ [length (mem b) ..< length (mem b) + (Suc (nat y) - length as)]"
  from buffer_select_node_rows [OF assms, of y] obtain b1 where b1:
    "buffer_select_node b y = Inr b1" "rows b1 ?rs" "current b1 = Some (?rs ! nat y)"
    by blast
  have len: "nat y < length ?rs" by simp
  from buffer_select_node_rows [OF b1(2), of y] len obtain b2 where b2:
    "buffer_select_node b1 y = Inr b2" "b2 = b1\<lparr>current := Some (?rs ! nat y)\<rparr>"
    by blast
  from b2(2) b1(3) have "b2 = b1" by simp
  with b1 b2 show ?thesis by auto
qed

theorem select_twice_same_line_witness:
  "rows empty_buffer [] \<and>
   (\<exists>b1. buffer_select_node empty_buffer 2 = Inr b1 \<and> buffer_select_node b1 2 = Inr b1 \<and>
      current b1 \<noteq> None)"
proof -
  have r: "rows empty_buffer []" by (simp add: rows_def empty_buffer_def)
  show ?thesis using r select_twice_same_line [OF r, of 2] by simp
qed

text \<open>
  Claim C8. On the empty store, inserting \<open>X\<close> at column 5 of row 0 returns a store
  with one line, whose array is five spaces, then \<open>X\<close>, then terminators: the columns
  0 to 4 held the terminator and were filled with spaces before the write at column 5.
  The logical length of the line is 6.
\<close>

theorem insert_past_end_fills_gap:
  "buffer_insert_character empty_buffer (of_char CHR ''X'') 5 0 =
     Inr \<lparr>mem = [\<lparr>node_text = ''     X'' @ replicate 122 NUL, node_next = None\<rparr>],
          head = Some 0, current = Some 0\<rparr> \<and>
   strlen (''     X'' @ replicate 122 NUL) = Inr 6 \<and>
   take 6 (''     X'' @ replicate 122 NUL) = [SPACE, SPACE, SPACE, SPACE, SPACE, CHR ''X'']"
  by code_simp

text \<open>
  Claim C9. For every store and every row \<open>y\<close> that is zero or negative,
  \<^verbatim>\<open>buffer_select_node\<close> does what it does for row 0: the loop makes no round, so
  nothing is dereferenced. On a store without a head it allocates the head, an empty
  line, and nothing else; on any other store it allocates nothing. In both cases
  \<^verbatim>\<open>current\<close> is the head afterwards.
\<close>

theorem select_nonpositive_row:
  "y \<le> 0 \<Longrightarrow>
   buffer_select_node b y = buffer_select_node b 0 \<and>
   buffer_select_node b y =
     Inr (if head b = None
          then b\<lparr>mem := mem b @ [zero_node], head := Some (length (mem b)),
                 current := Some (length (mem b))\<rparr>
          else b\<lparr>current := head b\<rparr>)"
proof -
  assume y: "y \<le> 0"
  have loop: "select_loop m p 0 z = Inr (m, p)" if "z \<le> 0" for m p z
    using that by (subst select_loop.simps) simp
  show ?thesis
    using y by (auto simp: buffer_select_node_def calloc_node_def loop)
qed

theorem select_nonpositive_row_witness:
  "(- 2 :: int) \<le> 0 \<and>
   buffer_select_node empty_buffer (- 2) = buffer_select_node empty_buffer 0 \<and>
   buffer_select_node empty_buffer (- 2) =
     Inr \<lparr>mem = [zero_node], head = Some 0, current = Some 0\<rparr>"
  using select_nonpositive_row [of "- 2" empty_buffer] by (auto simp: empty_buffer_def)



text \<open>
  Claim C10. Let the line that \<^verbatim>\<open>buffer_select_node\<close> reaches for row \<open>y\<close> have the
  logical length \<open>L\<close>, and let \<open>x - 1 \<ge> L\<close>. Then \<^verbatim>\<open>buffer_remove_character\<close> returns
  the store as \<^verbatim>\<open>buffer_select_node\<close> left it: the loop makes no round and the final
  write puts a terminator on the terminator, so the line is unchanged.
\<close>

theorem delete_past_end_unchanged:
  assumes "buffer_select_node b y = Inr b1" and "current_text b1 = Some t"
    and "strlen t = Inr L" and "int L \<le> x - 1"
  shows "buffer_remove_character b x y = Inr b1"
proof -
  have "- (2 ^ 31) \<le> x - 1" using assms(4) by (simp add: order_trans [of _ 0])
  with assms(3,4) have "remove_text t x = Inr t" by (simp add: remove_text_noop)
  with assms(2) have "on_current_text (\<lambda>t. remove_text t x) b1 = Inr b1"
    by (rule on_current_text_same)
  with assms(1) show ?thesis by (simp add: buffer_remove_character_def)
qed

theorem delete_past_end_unchanged_witness:
  "buffer_select_node (one_line ''Hi'') 0 = Inr (one_line ''Hi'') \<and>
   current_text (one_line ''Hi'') = Some (''Hi'' @ replicate 126 NUL) \<and>
   strlen (''Hi'' @ replicate 126 NUL) = Inr 2 \<and> int 2 \<le> 3 - 1 \<and>
   buffer_remove_character (one_line ''Hi'') 3 0 = Inr (one_line ''Hi'')"
proof -
  have 1: "buffer_select_node (one_line ''Hi'') 0 = Inr (one_line ''Hi'')" by code_simp
  have 2: "current_text (one_line ''Hi'') = Some (''Hi'' @ replicate 126 NUL)" by code_simp
  have 3: "strlen (''Hi'' @ replicate 126 NUL) = Inr 2" by code_simp
  have 4: "int 2 \<le> 3 - 1" by simp
  from delete_past_end_unchanged [OF 1 2 3 4] 1 2 3 4 show ?thesis by blast
qed

text \<open>
  Claim C1 says that an insert at a column from \<open>MAX_LINE_LEN - 1\<close> on fails with
  \<open>LineOverflow\<close> and leaves the line as it was. The code has no such result. At column
  127 of the one-row store \<open>Hi\<close> the insert returns and the line has changed.
\<close>

theorem insert_at_last_column_returns:
  "buffer_insert_character (one_line ''Hi'') (of_char CHR ''X'') 127 0 =
     Inr (one_line (''Hi'' @ replicate 125 SPACE @ ''X'')) \<and>
   one_line (''Hi'' @ replicate 125 SPACE @ ''X'') \<noteq> one_line ''Hi''"
  by code_simp

text \<open>
  Claim C1, amended. Let the line that \<^verbatim>\<open>buffer_select_node\<close> reaches for row \<open>y\<close>
  hold the terminator in its last slot, \<open>MAX_LINE_LEN - 1\<close>. Then an insert at that
  column does not fail: the function returns, and the store it returns is the one that
  \<^verbatim>\<open>buffer_select_node\<close> left, apart from the array of that one line, which has its
  size as before. What the array holds afterwards is left open, and so is every column
  from \<open>MAX_LINE_LEN\<close> on.
\<close>

theorem insert_at_last_column:
  assumes "buffer_select_node b y = Inr b1" and "current_text b1 = Some t"
    and "length t = MAX_LINE_LEN" and "t ! (MAX_LINE_LEN - 1) = NUL"
  shows "\<exists>a t'. current b1 = Some a \<and> a < length (mem b1) \<and> length t' = MAX_LINE_LEN \<and>
           buffer_insert_character b ch (int MAX_LINE_LEN - 1) y =
             Inr (b1\<lparr>mem := (mem b1)[a := (mem b1 ! a)\<lparr>node_text := t'\<rparr>]\<rparr>)"
proof -
  let ?x = "int MAX_LINE_LEN - 1"
  have x: "0 \<le> ?x" "nat ?x = MAX_LINE_LEN - 1" "nat ?x < length t"
    using assms(3) by (simp_all add: MAX_LINE_LEN_def)
  from insert_text_at_terminator [of ?x t ch] x assms(4) obtain t' where t':
    "insert_text t ch ?x = Inr t'" "length t' = length t"
    by auto
  from on_current_text_Inr [OF assms(2), of "\<lambda>t. insert_text t ch ?x" t'] t'(1)
  obtain a where a: "current b1 = Some a" "a < length (mem b1)"
    "on_current_text (\<lambda>t. insert_text t ch ?x) b1 =
       Inr (b1\<lparr>mem := (mem b1)[a := (mem b1 ! a)\<lparr>node_text := t'\<rparr>]\<rparr>)"
    by auto
  have "buffer_insert_character b ch ?x y =
      Inr (b1\<lparr>mem := (mem b1)[a := (mem b1 ! a)\<lparr>node_text := t'\<rparr>]\<rparr>)"
    using assms(1) a(3) by (simp add: buffer_insert_character_def)
  with a(1,2) t'(2) assms(3) show ?thesis by auto
qed

theorem insert_at_last_column_witness:
  "buffer_select_node (one_line ''Hi'') 0 = Inr (one_line ''Hi'') \<and>
   current_text (one_line ''Hi'') = Some (''Hi'' @ replicate 126 NUL) \<and>
   length (''Hi'' @ replicate 126 NUL) = MAX_LINE_LEN \<and>
   (''Hi'' @ replicate 126 NUL) ! (MAX_LINE_LEN - 1) = NUL \<and>
   (\<exists>a t'. current (one_line ''Hi'') = Some a \<and> a < length (mem (one_line ''Hi'')) \<and>
      length t' = MAX_LINE_LEN \<and>
      buffer_insert_character (one_line ''Hi'') (of_char CHR ''X'') (int MAX_LINE_LEN - 1) 0 =
        Inr ((one_line ''Hi'')\<lparr>mem := (mem (one_line ''Hi''))
               [a := (mem (one_line ''Hi'') ! a)\<lparr>node_text := t'\<rparr>]\<rparr>))"
proof -
  have 1: "buffer_select_node (one_line ''Hi'') 0 = Inr (one_line ''Hi'')" by code_simp
  have 2: "current_text (one_line ''Hi'') = Some (''Hi'' @ replicate 126 NUL)" by code_simp
  have 3: "length (''Hi'' @ replicate 126 NUL) = MAX_LINE_LEN" by code_simp
  have 4: "(''Hi'' @ replicate 126 NUL) ! (MAX_LINE_LEN - 1) = NUL" by code_simp
  from insert_at_last_column [OF 1 2 3 4, of "of_char CHR ''X''"] 1 2 3 4
  show ?thesis by blast
qed

text \<open>
  Claim C2 says that a delete at column 0 fails with \<open>InvalidPosition\<close>. In the code
  \<^verbatim>\<open>i\<close> starts at \<open>-1\<close>, which the comparison with \<^verbatim>\<open>strlen\<close> reads as unsigned,
  so the loop makes no round, and the function returns.
\<close>

theorem delete_at_column_zero_returns:
  "buffer_remove_character (one_line ''Hi'') 0 0 = Inr (one_line ''Hi'')"
  by code_simp

text \<open>
  Claim C2, amended. Let the line that \<^verbatim>\<open>buffer_select_node\<close> reaches for row \<open>y\<close>
  hold a terminator. Then a delete at column 0 returns the store as
  \<^verbatim>\<open>buffer_select_node\<close> left it: no failure is signalled and the line is unchanged.
\<close>

theorem delete_at_column_zero:
  assumes "buffer_select_node b y = Inr b1" and "current_text b1 = Some t"
    and "strlen t = Inr L"
  shows "buffer_remove_character b 0 y = Inr b1"
proof -
  have "remove_text t 0 = Inr t" using assms(3) by (simp add: remove_text_noop)
  with assms(2) have "on_current_text (\<lambda>t. remove_text t 0) b1 = Inr b1"
    by (rule on_current_text_same)
  with assms(1) show ?thesis by (simp add: buffer_remove_character_def)
qed

theorem delete_at_column_zero_witness:
  "buffer_select_node empty_buffer 1 = Inr \<lparr>mem = [zero_node\<lparr>node_next := Some 1\<rparr>, zero_node], head = Some 0, current = Some 1\<rparr> \<and>
   current_text \<lparr>mem = [zero_node\<lparr>node_next := Some 1\<rparr>, zero_node], head = Some 0, current = Some 1\<rparr> = Some (replicate 128 NUL) \<and>
   strlen (replicate 128 NUL) = Inr 0 \<and>
   buffer_remove_character empty_buffer 0 1 = Inr \<lparr>mem = [zero_node\<lparr>node_next := Some 1\<rparr>, zero_node], head = Some 0, current = Some 1\<rparr>"
proof -
  let ?b1 = "\<lparr>mem = [zero_node\<lparr>node_next := Some 1\<rparr>, zero_node], head = Some 0, current = Some 1\<rparr>"
  have 1: "buffer_select_node empty_buffer 1 = Inr ?b1" by code_simp
  have 2: "current_text ?b1 = Some (replicate 128 NUL)" by code_simp
  have 3: "strlen (replicate 128 NUL) = Inr 0" by code_simp
  from delete_at_column_zero [OF 1 2 3] 1 2 3 show ?thesis by blast
qed



text \<open>
  Claim C5 says that a delete at column \<open>col\<close> followed by an insert of the removed
  character at the same column restores the line. The delete removes the character
  before the column, at \<open>col - 1\<close>, and the insert puts it at \<open>col\<close>: on \<open>ab\<close> with
  column 1 the result is \<open>ba\<close>.
\<close>

theorem delete_insert_same_column_differs:
  "buffer_remove_character (one_line ''ab'') 1 0 = Inr (one_line ''b'') \<and>
   buffer_insert_character (one_line ''b'') (of_char CHR ''a'') 1 0 = Inr (one_line ''ba'') \<and>
   one_line ''ba'' \<noteq> one_line ''ab''"
  by code_simp

text \<open>
  Claim C5, amended. Let the rows of the store form a chain, let the line that
  \<^verbatim>\<open>buffer_select_node\<close> reaches for row \<open>y\<close> have the logical length \<open>L\<close>, and let
  \<open>1 \<le> x \<le> L\<close>. Then the delete at column \<open>x\<close> returns, and the insert of the removed
  character (the one that was at \<open>x - 1\<close>) at column \<open>x - 1\<close> of the same row returns the
  store as it was before the delete: the whole array of the line is restored.
\<close>

theorem delete_then_insert_restores:
  assumes "rows b as" and "buffer_select_node b y = Inr b1" and "current_text b1 = Some t"
    and "strlen t = Inr L" and "1 \<le> x" and "nat x \<le> L"
  shows "\<exists>b2. buffer_remove_character b x y = Inr b2 \<and>
           buffer_insert_character b2 (of_char (t ! (nat x - 1))) (x - 1) y = Inr b1"
proof -
  let ?rs = "as @ [length (mem b) ..< length (mem b) + (Suc (nat y) - length as)]"
  let ?c = "of_char (t ! (nat x - 1)) :: int"
  from buffer_select_node_rows [OF assms(1), of y] assms(2) have b1:
    "rows b1 ?rs" "current b1 = Some (?rs ! nat y)" by auto
  have len: "nat y < length ?rs" by simp
  from remove_text_spec [OF assms(4,5,6)] obtain t1 where t1: "remove_text t x = Inr t1"
    by blast
  from on_current_text_Inr [OF assms(3), of "\<lambda>t. remove_text t x" t1] t1
  obtain a where a: "current b1 = Some a" "a < length (mem b1)"
    "on_current_text (\<lambda>t. remove_text t x) b1 =
       Inr (b1\<lparr>mem := (mem b1)[a := (mem b1 ! a)\<lparr>node_text := t1\<rparr>]\<rparr>)"
    "current_text (b1\<lparr>mem := (mem b1)[a := (mem b1 ! a)\<lparr>node_text := t1\<rparr>]\<rparr>) = Some t1"
    by blast
  let ?b2 = "b1\<lparr>mem := (mem b1)[a := (mem b1 ! a)\<lparr>node_text := t1\<rparr>]\<rparr>"
  have del: "buffer_remove_character b x y = Inr ?b2"
    using assms(2) a(3) by (simp add: buffer_remove_character_def)
  have "rows ?b2 ?rs" using b1(1) a(2) by (rule rows_text_update)
  from buffer_select_node_rows [OF this, of y] len obtain b3 where b3:
    "buffer_select_node ?b2 y = Inr b3" "b3 = ?b2\<lparr>current := Some (?rs ! nat y)\<rparr>"
    by auto
  have sel: "buffer_select_node ?b2 y = Inr ?b2"
    using b3 b1(2) by simp
  have ins: "insert_text t1 ?c (x - 1) = Inr t"
    using assms(4,5,6) t1 by (rule insert_text_undoes_remove)
  from on_current_text_Inr [OF a(4), of "\<lambda>t. insert_text t ?c (x - 1)" t] ins
  have restore: "on_current_text (\<lambda>t. insert_text t ?c (x - 1)) ?b2 =
      Inr (?b2\<lparr>mem := (mem ?b2)[a := (mem ?b2 ! a)\<lparr>node_text := t\<rparr>]\<rparr>)"
    using a(1) by auto
  have txt_a: "node_text (mem b1 ! a) = t"
    using assms(3) a(1,2) by (simp add: current_text_def)
  have "(mem ?b2)[a := (mem ?b2 ! a)\<lparr>node_text := t\<rparr>] = mem b1"
    using a(2) txt_a by (simp add: list_update_same_conv)
  then have "?b2\<lparr>mem := (mem ?b2)[a := (mem ?b2 ! a)\<lparr>node_text := t\<rparr>]\<rparr> = b1"
    by simp
  with restore sel have "buffer_insert_character ?b2 ?c (x - 1) y = Inr b1"
    by (simp add: buffer_insert_character_def)
  with del show ?thesis by blast
qed

theorem delete_then_insert_restores_witness:
  "rows (one_line ''ab'') [0] \<and>
   buffer_select_node (one_line ''ab'') 0 = Inr (one_line ''ab'') \<and>
   current_text (one_line ''ab'') = Some (''ab'' @ replicate 126 NUL) \<and>
   strlen (''ab'' @ replicate 126 NUL) = Inr 2 \<and> (1::int) \<le> 1 \<and> nat 1 \<le> (2::nat) \<and>
   (\<exists>b2. buffer_remove_character (one_line ''ab'') 1 0 = Inr b2 \<and>
      buffer_insert_character b2 (of_char CHR ''a'') 0 0 = Inr (one_line ''ab''))"
proof -
  let ?t = "''ab'' @ replicate 126 NUL"
  have 0: "rows (one_line ''ab'') [0]" by code_simp
  have 1: "buffer_select_node (one_line ''ab'') 0 = Inr (one_line ''ab'')" by code_simp
  have 2: "current_text (one_line ''ab'') = Some ?t" by code_simp
  have 3: "strlen ?t = Inr 2" by code_simp
  have 4: "(1::int) \<le> 1" "nat 1 \<le> (2::nat)" by simp_all
  have 5: "?t ! (nat 1 - 1) = CHR ''a''" by simp
  from delete_then_insert_restores [OF 0 1 2 3 4] obtain b2 where
    "buffer_remove_character (one_line ''ab'') 1 0 = Inr b2"
    "buffer_insert_character b2 (of_char (?t ! (nat 1 - 1))) (1 - 1) 0 = Inr (one_line ''ab'')"
    by blast
  then have "\<exists>b2. buffer_remove_character (one_line ''ab'') 1 0 = Inr b2 \<and>
      buffer_insert_character b2 (of_char CHR ''a'') 0 0 = Inr (one_line ''ab'')"
    unfolding 5 by auto
  with 0 1 2 3 4 show ?thesis by blast
qed

end
